theory Spec2Isabelle
  imports Complex_Main
begin

section \<open>Tensors as contiguous row-major buffers\<close>

text \<open>
  The file \<^verbatim>\<open>extensions/depth_increasing_pooling.py\<close> works on numpy arrays and CNTK
  tensors. A tensor is modelled as its shape together with its elements in row-major
  (last axis fastest) order, which is the layout \<^verbatim>\<open>np.ascontiguousarray\<close> produces.
  Dimension sizes are natural numbers, as the entries of an array's \<^verbatim>\<open>shape\<close> are.
\<close>

datatype error = AssertionError | ZeroDivisionError | IndexError | ValueError | AxisError

record 'a tensor =
  shape :: "nat list"
  data :: "'a list"

definition wf_tensor :: "'a tensor \<Rightarrow> bool" where
  "wf_tensor t \<longleftrightarrow> length (data t) = prod_list (shape t)"

text \<open>Flat position of a multi-index in a row-major buffer, and back.\<close>

fun ravel :: "nat list \<Rightarrow> nat list \<Rightarrow> nat" where
  "ravel (d # ds) (i # ix) = i * prod_list ds + ravel ds ix"
| "ravel _ _ = 0"

fun unravel :: "nat list \<Rightarrow> nat \<Rightarrow> nat list" where
  "unravel [] k = []"
| "unravel (d # ds) k = (k div prod_list ds) # unravel ds (k mod prod_list ds)"

definition valid_index :: "nat list \<Rightarrow> nat list \<Rightarrow> bool" where
  "valid_index shp ix \<longleftrightarrow> list_all2 (\<lambda>i d. i < d) ix shp"

text \<open>\<^verbatim>\<open>t[ix]\<close>: the element at a multi-index.\<close>

definition elem :: "'a tensor \<Rightarrow> nat list \<Rightarrow> 'a" where
  "elem t ix = data t ! ravel (shape t) ix"

text \<open>
  A contiguous copy of \<open>t\<close> with shape \<open>new_shape\<close> whose element at multi-index \<open>ix\<close>
  is the element of \<open>t\<close> at \<open>src ix\<close>.
\<close>

definition gather :: "'a tensor \<Rightarrow> nat list \<Rightarrow> (nat list \<Rightarrow> nat list) \<Rightarrow> 'a tensor" where
  "gather t new_shape src =
     \<lparr>shape = new_shape,
      data = map (\<lambda>k. data t ! ravel (shape t) (src (unravel new_shape k)))
                 [0..<prod_list new_shape]\<rparr>"

section \<open>The array primitives the file calls\<close>

text \<open>
  \<^verbatim>\<open>volume.shape = s\<close> (numpy) reinterprets the buffer under a new shape and raises
  ValueError when the element counts differ; the elements stay where they are.
\<close>

definition set_shape :: "'a tensor \<Rightarrow> nat list \<Rightarrow> error + 'a tensor" where
  "set_shape t s =
     (if prod_list s = length (data t) then Inr (t\<lparr>shape := s\<rparr>) else Inl ValueError)"

definition swap_at :: "'b list \<Rightarrow> nat \<Rightarrow> nat \<Rightarrow> 'b list" where
  "swap_at xs i j = xs[i := xs ! j, j := xs ! i]"

text \<open>
  \<^verbatim>\<open>np.swapaxes(model, i, j)\<close> exchanges two axes and raises AxisError for an axis the
  array does not have. numpy returns a strided view; the model yields the row-major copy
  at once, so that \<^verbatim>\<open>np.ascontiguousarray\<close> has nothing left to do.
\<close>

definition swapaxes :: "'a tensor \<Rightarrow> nat \<Rightarrow> nat \<Rightarrow> error + 'a tensor" where
  "swapaxes t i j =
     (if i < length (shape t) \<and> j < length (shape t)
      then Inr (gather t (swap_at (shape t) i j) (\<lambda>ix. swap_at ix i j))
      else Inl AxisError)"

definition ascontiguousarray :: "'a tensor \<Rightarrow> 'a tensor" where
  "ascontiguousarray t = t"

text \<open>
  \<^verbatim>\<open>np.transpose(volume, axes)\<close>: output axis \<open>i\<close> is input axis \<open>axes ! i\<close>, so the
  element at output index \<open>ix\<close> is the input element whose coordinate along axis
  \<open>axes ! i\<close> is \<open>ix ! i\<close>. numpy raises ValueError unless \<open>axes\<close> is a permutation
  of the array's axes.
\<close>

definition valid_permutation :: "nat list \<Rightarrow> nat \<Rightarrow> bool" where
  "valid_permutation axes n \<longleftrightarrow>
     length axes = n \<and> distinct axes \<and> list_all (\<lambda>a. a < n) axes"

definition index_of :: "nat list \<Rightarrow> nat \<Rightarrow> nat" where
  "index_of axes a = length (takeWhile (\<lambda>x. x \<noteq> a) axes)"

definition source_index :: "nat list \<Rightarrow> nat list \<Rightarrow> nat list" where
  "source_index axes ix = map (\<lambda>a. ix ! index_of axes a) [0..<length axes]"

definition transpose_np :: "'a tensor \<Rightarrow> nat list \<Rightarrow> error + 'a tensor" where
  "transpose_np t axes =
     (if valid_permutation axes (length (shape t))
      then Inr (gather t (map (\<lambda>a. shape t ! a) axes) (source_index axes))
      else Inl ValueError)"

definition inverse_permutation :: "nat list \<Rightarrow> nat list" where
  "inverse_permutation axes = map (index_of axes) [0..<length axes]"

section \<open>transposeAlotNp (lines 141 to 161)\<close>

text \<open>
  The state of the outer loop: the array, the bookkeeping array
  \<^verbatim>\<open>current_permutation\<close>, and a counter of the executions of line 154 (the counter is
  not in the source; it records how many axis swaps a run performs).
\<close>

record 'a loop_state =
  model :: "'a tensor"
  current_permutation :: "nat list"
  swaps :: nat

text \<open>
  The inner \<^verbatim>\<open>for j in range(i, nr_of_axes)\<close> with its \<^verbatim>\<open>break\<close>: the value of
  \<open>j\<close> after the loop is the first position that holds the wanted axis, or the last
  position visited when none does. The last argument is the value \<open>j\<close> holds so far.
\<close>

fun search_j :: "nat list \<Rightarrow> nat \<Rightarrow> nat list \<Rightarrow> nat \<Rightarrow> nat" where
  "search_j cur wanted [] j = j"
| "search_j cur wanted (k # ks) j =
     (if cur ! k = wanted then k else search_j cur wanted ks k)"

definition outer_body ::
  "nat list \<Rightarrow> nat \<Rightarrow> nat \<Rightarrow> 'a loop_state \<Rightarrow> error + 'a loop_state" where
  "outer_body permutation nr_of_axes i st =
     (let cur = current_permutation st in
      if permutation ! i \<noteq> cur ! i then
        (let j = search_j cur (permutation ! i) [i..<nr_of_axes] i in
         case swapaxes (model st) i j of
           Inl e \<Rightarrow> Inl e
         | Inr m \<Rightarrow>
             Inr \<lparr>model = ascontiguousarray m,
                  current_permutation = cur[i := cur ! j, j := cur ! i],
                  swaps = Suc (swaps st)\<rparr>)
      else Inr st)"

text \<open>A \<^verbatim>\<open>for\<close> loop over a list of positions; an exception in the body ends it.\<close>

fun for_loop :: "(nat \<Rightarrow> 's \<Rightarrow> error + 's) \<Rightarrow> nat list \<Rightarrow> 's \<Rightarrow> error + 's" where
  "for_loop body [] st = Inr st"
| "for_loop body (i # rest) st =
     (case body i st of Inl e \<Rightarrow> Inl e | Inr st' \<Rightarrow> for_loop body rest st')"

definition initial_state :: "'a tensor \<Rightarrow> nat \<Rightarrow> 'a loop_state" where
  "initial_state m nr_of_axes =
     \<lparr>model = m, current_permutation = [0..<nr_of_axes], swaps = 0\<rparr>"

text \<open>The state after the outer loop has run over the positions \<open>0..<up_to\<close>.\<close>

definition transposeAlotNp_loop ::
  "'a tensor \<Rightarrow> nat list \<Rightarrow> nat \<Rightarrow> error + 'a loop_state" where
  "transposeAlotNp_loop m permutation up_to =
     (let nr_of_axes = length permutation
      in for_loop (outer_body permutation nr_of_axes) [0..<up_to] (initial_state m nr_of_axes))"

definition transposeAlotNp :: "'a tensor \<Rightarrow> nat list \<Rightarrow> error + 'a tensor" where
  "transposeAlotNp m permutation =
     (case transposeAlotNp_loop m permutation (length permutation - 1) of
        Inl e \<Rightarrow> Inl e
      | Inr st \<Rightarrow> Inr (model st))"

text \<open>
  What holds of the loop state when the outer loop has dealt with the positions below
  \<open>i\<close>, for a run on the array \<open>t\<close>: the bookkeeping array is a permutation that agrees
  with the target below \<open>i\<close>, the array is \<open>t\<close> transposed by the bookkeeping array, and
  no more than \<open>i\<close> swaps were made.
\<close>

definition loop_inv :: "'a tensor \<Rightarrow> nat list \<Rightarrow> nat \<Rightarrow> 'a loop_state \<Rightarrow> bool" where
  "loop_inv t permutation i st \<longleftrightarrow>
     valid_permutation (current_permutation st) (length permutation)
     \<and> take i (current_permutation st) = take i permutation
     \<and> model st = gather t (map (\<lambda>a. shape t ! a) (current_permutation st))
                             (source_index (current_permutation st))
     \<and> swaps st \<le> i"

section \<open>Shape arithmetic in Python\<close>

text \<open>
  The shapes are computed with \<^verbatim>\<open>/\<close>, which on Python 3 is true division and yields
  a float, and \<^verbatim>\<open>int(...)\<close>, which truncates it. A float is modelled by the exact
  quotient; for the sizes of array dimensions (far below \<open>2^53\<close>) the truncation of the
  rounded quotient and of the exact one agree. On Python 2 the same \<^verbatim>\<open>/\<close> is floor
  division and gives that truncated value at once. Division by zero raises
  ZeroDivisionError on both.
\<close>

datatype pynum = PyInt nat | PyFloat rat

definition truediv :: "nat \<Rightarrow> nat \<Rightarrow> error + rat" where
  "truediv a b = (if b = 0 then Inl ZeroDivisionError else Inr (of_nat a / of_nat b))"

definition int_of :: "rat \<Rightarrow> nat" where
  "int_of q = nat \<lfloor>q\<rfloor>"

fun as_dim :: "pynum \<Rightarrow> nat" where
  "as_dim (PyInt n) = n"
| "as_dim (PyFloat q) = int_of q"

text \<open>
  Modelled from the spec: \<^verbatim>\<open>cntk.reshape\<close> is not among the sources. Section 3 of the
  specification: a shape is a sequence of integers, and a reshape is valid only when the
  product of the new shape's entries equals that of the old ones; it moves no data. An entry
  given as a float is taken at its integer value, as the call at line 39 relies on.
\<close>

definition reshape :: "'a tensor \<Rightarrow> pynum list \<Rightarrow> error + 'a tensor" where
  "reshape t s = set_shape t (map as_dim s)"

text \<open>
  Modelled from the spec: \<^verbatim>\<open>transpose_a_lot\<close> of \<^verbatim>\<open>extensions/Transpose.py\<close> is not
  among the sources. Section 4.1 of the specification describes it as the selection-swap
  algorithm over pairwise axis swaps, which is what \<^verbatim>\<open>transposeAlotNp\<close> in this file
  does with numpy's \<^verbatim>\<open>swapaxes\<close>.
\<close>

definition transpose_a_lot :: "'a tensor \<Rightarrow> nat list \<Rightarrow> error + 'a tensor" where
  "transpose_a_lot t permutation = transposeAlotNp t permutation"

section \<open>depth_increasing_pooling (lines 10 to 41)\<close>

definition depth_increasing_pooling ::
  "'a tensor \<Rightarrow> nat \<times> nat \<Rightarrow> nat list option \<Rightarrow> error + 'a tensor" where
  "depth_increasing_pooling tensor pooling_window_shape input_shape_arg =
     (let input_shape = (case input_shape_arg of None \<Rightarrow> shape tensor | Some s \<Rightarrow> s) in
      if length input_shape \<noteq> 3 then Inl AssertionError else
      case truediv (input_shape ! 1) (fst pooling_window_shape) of
        Inl e \<Rightarrow> Inl e
      | Inr q1 \<Rightarrow>
      case truediv (input_shape ! 2) (snd pooling_window_shape) of
        Inl e \<Rightarrow> Inl e
      | Inr q2 \<Rightarrow>
      let shape_tmp = [PyInt (input_shape ! 0),
                       PyInt (int_of q1),
                       PyInt (fst pooling_window_shape),
                       PyInt (int_of q2),
                       PyInt (snd pooling_window_shape)];
          final_shape = [PyInt (input_shape ! 0 * fst pooling_window_shape
                                  * snd pooling_window_shape),
                         PyFloat q1,
                         PyFloat q2]
      in
      case reshape tensor shape_tmp of
        Inl e \<Rightarrow> Inl e
      | Inr temp1 \<Rightarrow>
      case transpose_a_lot temp1 [0, 2, 4, 1, 3] of
        Inl e \<Rightarrow> Inl e
      | Inr temp2 \<Rightarrow> reshape temp2 final_shape)"

section \<open>The numpy reference versions (lines 50 to 63 and 164 to 177)\<close>

text \<open>
  Both compute the two shapes alike; they differ in the transpose they call.
  \<^verbatim>\<open>volume.shape[k]\<close> raises IndexError on an array with fewer than three axes.
\<close>

definition dip_with ::
  "('a tensor \<Rightarrow> nat list \<Rightarrow> error + 'a tensor) \<Rightarrow> 'a tensor \<Rightarrow> nat \<times> nat
     \<Rightarrow> error + 'a tensor" where
  "dip_with transpose_fn volume pooling_window_shape =
     (if length (shape volume) < 3 then Inl IndexError else
      case truediv (shape volume ! 1) (fst pooling_window_shape) of
        Inl e \<Rightarrow> Inl e
      | Inr q1 \<Rightarrow>
      case truediv (shape volume ! 2) (snd pooling_window_shape) of
        Inl e \<Rightarrow> Inl e
      | Inr q2 \<Rightarrow>
      let shape_tmp = [shape volume ! 0,
                       int_of q1,
                       fst pooling_window_shape,
                       int_of q2,
                       snd pooling_window_shape];
          final_shape = [shape volume ! 0 * fst pooling_window_shape
                           * snd pooling_window_shape,
                         int_of q1,
                         int_of q2]
      in
      case set_shape volume shape_tmp of
        Inl e \<Rightarrow> Inl e
      | Inr volume' \<Rightarrow>
      case transpose_fn volume' [0, 2, 4, 1, 3] of
        Inl e \<Rightarrow> Inl e
      | Inr temp \<Rightarrow> set_shape temp final_shape)"

definition dip_np :: "'a tensor \<Rightarrow> nat \<times> nat \<Rightarrow> error + 'a tensor" where
  "dip_np volume pooling_window_shape =
     dip_with (\<lambda>v axes. map_sum id ascontiguousarray (transpose_np v axes))
       volume pooling_window_shape"

definition dip_swap_np :: "'a tensor \<Rightarrow> nat \<times> nat \<Rightarrow> error + 'a tensor" where
  "dip_swap_np volume pooling_window_shape =
     dip_with transposeAlotNp volume pooling_window_shape"

text \<open>The arrays \<^verbatim>\<open>data\<close> and \<^verbatim>\<open>expected\<close> of the test (lines 65 to 100).\<close>

definition test_data :: "int tensor" where
  "test_data =
     \<lparr>shape = [2, 4, 4],
      data = [0, 1, 2, 3,  10, 11, 12, 13,  20, 21, 22, 23,  30, 31, 32, 33,
              100, 101, 102, 103,  110, 111, 112, 113,
              120, 121, 122, 123,  130, 131, 132, 133]\<rparr>"

definition test_expected :: "int tensor" where
  "test_expected =
     \<lparr>shape = [8, 2, 2],
      data = [0, 2, 20, 22,  1, 3, 21, 23,  10, 12, 30, 32,  11, 13, 31, 33,
              100, 102, 120, 122,  101, 103, 121, 123,
              110, 112, 130, 132,  111, 113, 131, 133]\<rparr>"

section \<open>Index arithmetic\<close>

lemma ravel_less:
  "list_all2 (\<lambda>i d. i < d) ix shp \<Longrightarrow> ravel shp ix < prod_list shp"
proof (induction ix shp rule: list_all2_induct)
  case Nil
  show ?case by simp
next
  case (Cons i ix d ds)
  have "i * prod_list ds + ravel ds ix < i * prod_list ds + prod_list ds"
    using Cons.IH by simp
  also have "\<dots> = Suc i * prod_list ds" by simp
  also have "\<dots> \<le> d * prod_list ds"
    using Cons.hyps(1) by (intro mult_le_mono1) simp
  finally show ?case by simp
qed

lemma unravel_ravel:
  "list_all2 (\<lambda>i d. i < d) ix shp \<Longrightarrow> unravel shp (ravel shp ix) = ix"
proof (induction ix shp rule: list_all2_induct)
  case Nil
  show ?case by simp
next
  case (Cons i ix d ds)
  have lt: "ravel ds ix < prod_list ds"
    using Cons.hyps(2) by (rule ravel_less)
  then have "(i * prod_list ds + ravel ds ix) div prod_list ds = i"
    and "(i * prod_list ds + ravel ds ix) mod prod_list ds = ravel ds ix"
    by simp_all
  then show ?case using Cons.IH by simp
qed

lemma unravel_valid:
  "k < prod_list shp \<Longrightarrow> list_all2 (\<lambda>i d. i < d) (unravel shp k) shp"
proof (induction shp arbitrary: k)
  case Nil
  show ?case by simp
next
  case (Cons d ds)
  from Cons.prems have pos: "0 < prod_list ds"
    by (cases "prod_list ds = 0") simp_all
  from Cons.prems have "k < prod_list ds * d" by (simp add: mult.commute)
  then have "k div prod_list ds < d"
    using pos by (simp add: less_mult_imp_div_less mult.commute)
  moreover have "k mod prod_list ds < prod_list ds"
    using pos by simp
  ultimately show ?case using Cons.IH by simp
qed

lemma ravel_unravel:
  "ravel shp (unravel shp k) = (if shp = [] then 0 else k)"
  by (induction shp arbitrary: k) (simp_all add: mult.commute)

lemma length_unravel: "length (unravel shp k) = length shp"
  by (induction shp arbitrary: k) simp_all

lemma wf_gather: "wf_tensor (gather t s f)"
  by (simp add: wf_tensor_def gather_def)

lemma shape_gather: "shape (gather t s f) = s"
  by (simp add: gather_def)

lemma ravel_unravel_lt: "k < prod_list shp \<Longrightarrow> ravel shp (unravel shp k) = k"
  by (cases "shp = []") (simp_all add: ravel_unravel)

lemma gather_cong:
  assumes "\<And>ix. list_all2 (\<lambda>i d. i < d) ix s \<Longrightarrow> f ix = g ix"
  shows "gather t s f = gather t s g"
proof -
  have "\<And>k. k < prod_list s \<Longrightarrow> f (unravel s k) = g (unravel s k)"
    using assms unravel_valid by blast
  then show ?thesis by (simp add: gather_def)
qed

lemma gather_gather:
  assumes "\<And>ix. list_all2 (\<lambda>i d. i < d) ix s2 \<Longrightarrow> list_all2 (\<lambda>i d. i < d) (g ix) s1"
  shows "gather (gather t s1 f) s2 g = gather t s2 (\<lambda>ix. f (g ix))"
proof -
  have "\<And>k. k < prod_list s2 \<Longrightarrow>
      data (gather t s1 f) ! ravel s1 (g (unravel s2 k))
      = data t ! ravel (shape t) (f (g (unravel s2 k)))"
  proof -
    fix k assume "k < prod_list s2"
    then have v: "list_all2 (\<lambda>i d. i < d) (g (unravel s2 k)) s1"
      using assms unravel_valid by blast
    then have "ravel s1 (g (unravel s2 k)) < prod_list s1" by (rule ravel_less)
    then show "data (gather t s1 f) ! ravel s1 (g (unravel s2 k))
      = data t ! ravel (shape t) (f (g (unravel s2 k)))"
      using v by (simp add: gather_def unravel_ravel)
  qed
  then show ?thesis by (simp add: gather_def)
qed

lemma gather_id:
  assumes "wf_tensor t" and "\<And>ix. list_all2 (\<lambda>i d. i < d) ix (shape t) \<Longrightarrow> f ix = ix"
  shows "gather t (shape t) f = t"
proof -
  have "map (\<lambda>k. data t ! ravel (shape t) (f (unravel (shape t) k))) [0..<prod_list (shape t)]
        = map (\<lambda>k. data t ! k) [0..<prod_list (shape t)]"
    using assms(2) unravel_valid by (auto simp: ravel_unravel_lt)
  also have "\<dots> = data t"
    using assms(1) map_nth[of "data t"] by (simp add: wf_tensor_def)
  finally show ?thesis by (simp add: gather_def)
qed

lemma elem_gather:
  assumes "list_all2 (\<lambda>i d. i < d) ix s"
  shows "elem (gather t s f) ix = elem t (f ix)"
  using assms ravel_less[OF assms] by (simp add: elem_def gather_def unravel_ravel)


lemma length_swap_at: "length (swap_at xs i j) = length xs"
  by (simp add: swap_at_def)

lemma nth_swap_at:
  "i < length xs \<Longrightarrow> j < length xs \<Longrightarrow> k < length xs \<Longrightarrow>
   swap_at xs i j ! k = (if k = j then xs ! i else if k = i then xs ! j else xs ! k)"
  by (simp add: swap_at_def nth_list_update)

lemma swap_at_swap_at:
  "i < length xs \<Longrightarrow> j < length xs \<Longrightarrow> swap_at (swap_at xs i j) i j = xs"
  by (rule nth_equalityI) (auto simp: length_swap_at nth_swap_at)

lemma map_swap_at:
  "i < length xs \<Longrightarrow> j < length xs \<Longrightarrow> map f (swap_at xs i j) = swap_at (map f xs) i j"
  by (simp add: swap_at_def map_update)

lemma list_all2_swap_at:
  assumes "list_all2 P xs ys" and "i < length xs" and "j < length xs"
  shows "list_all2 P (swap_at xs i j) (swap_at ys i j)"
proof -
  have len: "length xs = length ys" using assms(1) by (rule list_all2_lengthD)
  show ?thesis
    using assms len
    by (auto simp: list_all2_conv_all_nth length_swap_at nth_swap_at)
qed

lemma set_swap_at:
  "i < length xs \<Longrightarrow> j < length xs \<Longrightarrow> set (swap_at xs i j) = set xs"
  unfolding swap_at_def by (simp add: set_swap)

lemma distinct_swap_at:
  "i < length xs \<Longrightarrow> j < length xs \<Longrightarrow> distinct (swap_at xs i j) = distinct xs"
  unfolding swap_at_def by (simp add: distinct_swap)

lemma valid_permutation_swap_at:
  "valid_permutation axes n \<Longrightarrow> i < n \<Longrightarrow> j < n \<Longrightarrow> valid_permutation (swap_at axes i j) n"
  by (simp add: valid_permutation_def length_swap_at distinct_swap_at set_swap_at list_all_iff)

lemma index_of_nth:
  "distinct xs \<Longrightarrow> i < length xs \<Longrightarrow> index_of xs (xs ! i) = i"
  unfolding index_of_def
proof (induction xs arbitrary: i)
  case Nil
  then show ?case by simp
next
  case (Cons x xs)
  then show ?case by (cases i) auto
qed

lemma index_of_less: "a \<in> set xs \<Longrightarrow> index_of xs a < length xs"
  unfolding index_of_def by (induction xs) auto

lemma nth_index_of: "a \<in> set xs \<Longrightarrow> xs ! index_of xs a = a"
  unfolding index_of_def
  by (induction xs) auto

lemma valid_permutation_set:
  assumes "valid_permutation axes n"
  shows "set axes = {0..<n}"
proof -
  from assms have len: "length axes = n" and d: "distinct axes" and sub: "set axes \<subseteq> {0..<n}"
    by (auto simp: valid_permutation_def list_all_iff)
  have "card (set axes) = n" using d len by (simp add: distinct_card)
  then show ?thesis using sub by (simp add: card_subset_eq)
qed


lemma index_of_swap_at:
  assumes "valid_permutation axes n" and "i < n" and "j < n" and "a < n"
  shows "index_of (swap_at axes i j) a
         = (let p = index_of axes a in if p = i then j else if p = j then i else p)"
proof -
  from assms(1) have len: "length axes = n" and d: "distinct axes"
    by (simp_all add: valid_permutation_def)
  have "a \<in> set axes" using valid_permutation_set[OF assms(1)] assms(4) by simp
  then have p: "index_of axes a < n" and ap: "axes ! index_of axes a = a"
    using len index_of_less[of a axes] nth_index_of[of a axes] by simp_all
  define p where "p = index_of axes a"
  define q where "q = (if p = i then j else if p = j then i else p)"
  have q: "q < n" using p assms(2,3) by (simp add: q_def p_def)
  have "swap_at axes i j ! q = a"
    using p ap assms(2,3) len q by (auto simp: nth_swap_at q_def p_def)
  moreover have "index_of (swap_at axes i j) (swap_at axes i j ! q) = q"
    using d len assms(2,3) q by (intro index_of_nth) (simp_all add: distinct_swap_at length_swap_at)
  ultimately show ?thesis by (simp add: q_def p_def Let_def)
qed

lemma source_index_swap_at:
  assumes "valid_permutation axes n" and "i < n" and "j < n" and "length ix = n"
  shows "source_index axes (swap_at ix i j) = source_index (swap_at axes i j) ix"
proof -
  from assms(1) have len: "length axes = n" by (simp add: valid_permutation_def)
  have "\<And>a. a < n \<Longrightarrow>
      swap_at ix i j ! index_of axes a = ix ! index_of (swap_at axes i j) a"
  proof -
    fix a assume a: "a < n"
    have "a \<in> set axes" using valid_permutation_set[OF assms(1)] a by simp
    then have p: "index_of axes a < n" using len index_of_less[of a axes] by simp
    show "swap_at ix i j ! index_of axes a = ix ! index_of (swap_at axes i j) a"
      using p assms(2,3,4) by (auto simp: index_of_swap_at[OF assms(1-3) a] nth_swap_at Let_def)
  qed
  then show ?thesis by (simp add: source_index_def len length_swap_at)
qed

lemma length_valid: "list_all2 (\<lambda>i d. i < d) ix s \<Longrightarrow> length ix = length s"
  by (rule list_all2_lengthD)

lemma swapaxes_transpose:
  assumes "valid_permutation axes n" and "n = length (shape t)" and "i < n" and "j < n"
  shows "swapaxes (gather t (map (\<lambda>a. shape t ! a) axes) (source_index axes)) i j
         = Inr (gather t (map (\<lambda>a. shape t ! a) (swap_at axes i j))
                         (source_index (swap_at axes i j)))"
proof -
  from assms(1) have len: "length axes = n" by (simp add: valid_permutation_def)
  let ?s1 = "map (\<lambda>a. shape t ! a) axes"
  let ?s2 = "swap_at ?s1 i j"
  have s2: "?s2 = map (\<lambda>a. shape t ! a) (swap_at axes i j)"
    using len assms(3,4) by (simp add: map_swap_at)
  have valid: "\<And>ix. list_all2 (\<lambda>i d. i < d) ix ?s2 \<Longrightarrow>
       list_all2 (\<lambda>i d. i < d) (swap_at ix i j) ?s1"
  proof -
    fix ix assume v: "list_all2 (\<lambda>i d. i < d) ix ?s2"
    then have l: "length ix = n" using len by (simp add: list_all2_lengthD length_swap_at)
    have "list_all2 (\<lambda>i d. i < d) (swap_at ix i j) (swap_at ?s2 i j)"
      using v l assms(3,4) by (intro list_all2_swap_at) simp_all
    then show "list_all2 (\<lambda>i d. i < d) (swap_at ix i j) ?s1"
      using len assms(3,4) by (simp add: swap_at_swap_at)
  qed
  have "gather (gather t ?s1 (source_index axes)) ?s2 (\<lambda>ix. swap_at ix i j)
        = gather t ?s2 (\<lambda>ix. source_index axes (swap_at ix i j))"
    using valid by (rule gather_gather)
  also have "\<dots> = gather t ?s2 (source_index (swap_at axes i j))"
  proof (rule gather_cong)
    fix ix assume v: "list_all2 (\<lambda>i d. i < d) ix ?s2"
    then have l: "length ix = n" using len by (simp add: list_all2_lengthD length_swap_at)
    show "source_index axes (swap_at ix i j) = source_index (swap_at axes i j) ix"
      using assms(1,3,4) l by (rule source_index_swap_at)
  qed
  finally show ?thesis
    using len assms(3,4) by (simp add: swapaxes_def shape_gather s2)
qed

lemma index_of_upt: "a < n \<Longrightarrow> index_of [0..<n] a = a"
  using index_of_nth[of "[0..<n]" a] by simp

lemma valid_permutation_upt: "valid_permutation [0..<n] n"
  by (simp add: valid_permutation_def list_all_iff)

lemma source_index_upt: "length ix = n \<Longrightarrow> source_index [0..<n] ix = ix"
proof -
  assume l: "length ix = n"
  have "map (\<lambda>a. ix ! index_of [0..<n] a) [0..<n] = map (\<lambda>a. ix ! a) [0..<n]"
    by (simp add: index_of_upt)
  also have "\<dots> = ix" using l map_nth[of ix] by simp
  finally show ?thesis by (simp add: source_index_def)
qed

lemma gather_identity_permutation:
  assumes "wf_tensor t" and "n = length (shape t)"
  shows "gather t (map (\<lambda>a. shape t ! a) [0..<n]) (source_index [0..<n]) = t"
proof -
  have s: "map (\<lambda>a. shape t ! a) [0..<n] = shape t"
    using assms(2) map_nth[of "shape t"] by simp
  show ?thesis
    unfolding s using assms(1)
  proof (rule gather_id)
    fix ix assume "list_all2 (\<lambda>i d. i < d) ix (shape t)"
    then have "length ix = n" using assms(2) by (simp add: list_all2_lengthD)
    then show "source_index [0..<n] ix = ix" by (rule source_index_upt)
  qed
qed

lemma search_j_found:
  assumes "k0 \<in> set ks" and "cur ! k0 = wanted"
  shows "search_j cur wanted ks j \<in> set ks \<and> cur ! search_j cur wanted ks j = wanted"
  using assms by (induction ks arbitrary: j) auto

lemma for_loop_snoc:
  "for_loop body (xs @ [x]) st =
     (case for_loop body xs st of Inl e \<Rightarrow> Inl e | Inr st' \<Rightarrow> body x st')"
  by (induction xs arbitrary: st) (auto split: sum.splits)

lemma loop_inv_initial:
  assumes "wf_tensor t" and "length permutation = length (shape t)"
  shows "loop_inv t permutation 0 (initial_state t (length permutation))"
  using assms
  by (simp add: loop_inv_def initial_state_def valid_permutation_upt
      gather_identity_permutation)

lemma outer_body_keeps_inv:
  assumes vp: "valid_permutation permutation n"
    and n: "n = length (shape t)"
    and i: "i < n - 1"
    and inv: "loop_inv t permutation i st"
  shows "\<exists>st'. outer_body permutation n i st = Inr st' \<and> loop_inv t permutation (Suc i) st'"
proof -
  define cur where "cur = current_permutation st"
  from vp have lenp: "length permutation = n" and dp: "distinct permutation"
    by (simp_all add: valid_permutation_def)
  from inv have vc: "valid_permutation cur n"
    and tk: "take i cur = take i permutation"
    and md: "model st = gather t (map (\<lambda>a. shape t ! a) cur) (source_index cur)"
    and sw: "swaps st \<le> i"
    by (simp_all add: loop_inv_def cur_def lenp)
  from vc have lenc: "length cur = n" and dc: "distinct cur"
    by (simp_all add: valid_permutation_def)
  have i_lt: "i < n" using i by simp
  show ?thesis
  proof (cases "permutation ! i = cur ! i")
    case True
    have "take (Suc i) cur = take (Suc i) permutation"
      using True tk i_lt lenc lenp by (simp add: take_Suc_conv_app_nth)
    then have "loop_inv t permutation (Suc i) st"
      using vc md sw by (simp add: loop_inv_def cur_def lenp)
    moreover have "outer_body permutation n i st = Inr st"
      using True by (simp add: outer_body_def cur_def)
    ultimately show ?thesis by blast
  next
    case False
    define wanted where "wanted = permutation ! i"
    define j where "j = search_j cur wanted [i..<n] i"
    have "wanted \<in> set permutation" using i_lt lenp by (simp add: wanted_def)
    then have "wanted \<in> set cur"
      using valid_permutation_set[OF vp] valid_permutation_set[OF vc] by simp
    then have p_lt: "index_of cur wanted < n" and p_at: "cur ! index_of cur wanted = wanted"
      using lenc index_of_less[of wanted cur] nth_index_of[of wanted cur] by simp_all
    have p_ge: "i \<le> index_of cur wanted"
    proof (rule ccontr)
      assume "\<not> i \<le> index_of cur wanted"
      then have lt: "index_of cur wanted < i" by simp
      have "cur ! index_of cur wanted = take i cur ! index_of cur wanted"
        using lt by simp
      also have "\<dots> = permutation ! index_of cur wanted"
        using lt tk by simp
      finally have "permutation ! index_of cur wanted = permutation ! i"
        using p_at by (simp add: wanted_def)
      then have "index_of cur wanted = i"
        using dp lenp p_lt i_lt by (simp add: nth_eq_iff_index_eq)
      then show False using lt by simp
    qed
    have "index_of cur wanted \<in> set [i..<n]" using p_ge p_lt by simp
    then have "j \<in> set [i..<n] \<and> cur ! j = wanted"
      unfolding j_def using p_at by (rule search_j_found)
    then have j_ge: "i \<le> j" and j_lt: "j < n" and j_at: "cur ! j = wanted" by simp_all
    have j_ne: "j \<noteq> i" using False j_at by (auto simp: wanted_def)
    have swp: "swapaxes (model st) i j
       = Inr (gather t (map (\<lambda>a. shape t ! a) (swap_at cur i j))
                       (source_index (swap_at cur i j)))"
      unfolding md using vc n i_lt j_lt by (rule swapaxes_transpose)
    define st' where "st' = \<lparr>model = gather t (map (\<lambda>a. shape t ! a) (swap_at cur i j))
                       (source_index (swap_at cur i j)),
                     current_permutation = swap_at cur i j,
                     swaps = Suc (swaps st)\<rparr>"
    have run: "outer_body permutation n i st = Inr st'"
      using False swp
      by (simp add: outer_body_def cur_def[symmetric] wanted_def[symmetric] j_def[symmetric]
          Let_def st'_def swap_at_def ascontiguousarray_def)
    have tk_i: "take i (swap_at cur i j) = take i cur"
      using j_ge by (simp add: swap_at_def)
    have at_i: "swap_at cur i j ! i = wanted"
      using i_lt j_lt lenc j_ne j_at by (simp add: nth_swap_at)
    have "take (Suc i) (swap_at cur i j) = take (Suc i) permutation"
      using tk_i tk at_i i_lt lenc lenp
      by (simp add: take_Suc_conv_app_nth length_swap_at wanted_def)
    then have "loop_inv t permutation (Suc i) st'"
      using valid_permutation_swap_at[OF vc i_lt j_lt] sw
      by (simp add: loop_inv_def st'_def lenp)
    with run show ?thesis by blast
  qed
qed

lemma transposeAlotNp_loop_inv:
  assumes vp: "valid_permutation permutation (length (shape t))"
    and wf: "wf_tensor t"
    and m: "m \<le> length permutation - 1"
  shows "\<exists>st. transposeAlotNp_loop t permutation m = Inr st \<and> loop_inv t permutation m st"
  using m
proof (induction m)
  case 0
  from vp have len: "length permutation = length (shape t)"
    by (simp add: valid_permutation_def)
  show ?case
    using loop_inv_initial[OF wf len] by (simp add: transposeAlotNp_loop_def Let_def)
next
  case (Suc m)
  from vp have len: "length permutation = length (shape t)"
    by (simp add: valid_permutation_def)
  from Suc obtain st where st: "transposeAlotNp_loop t permutation m = Inr st"
    and inv: "loop_inv t permutation m st" by auto
  have "m < length (shape t) - 1" using Suc.prems len by simp
  from outer_body_keeps_inv[OF vp refl this inv]
  obtain st' where "outer_body permutation (length (shape t)) m st = Inr st'"
    and "loop_inv t permutation (Suc m) st'" by blast
  then show ?case
    using st by (simp add: transposeAlotNp_loop_def for_loop_snoc len Let_def)
qed


lemma permutation_determined_by_prefix:
  assumes vc: "valid_permutation cur n" and vp: "valid_permutation permutation n"
    and tk: "take (n - 1) cur = take (n - 1) permutation"
  shows "cur = permutation"
proof (cases n)
  case 0
  then show ?thesis using vc vp by (simp add: valid_permutation_def)
next
  case (Suc k)
  from vc have lenc: "length cur = Suc k" and dc: "distinct cur"
    by (simp_all add: valid_permutation_def Suc)
  from vp have lenp: "length permutation = Suc k" and dp: "distinct permutation"
    by (simp_all add: valid_permutation_def Suc)
  have sets: "set cur = set permutation"
    using valid_permutation_set[OF vc] valid_permutation_set[OF vp] by simp
  have tk': "take k cur = take k permutation" using tk Suc by simp
  have c: "cur = take k cur @ [cur ! k]"
    using lenc take_Suc_conv_app_nth[of k cur] by simp
  have p: "permutation = take k permutation @ [permutation ! k]"
    using lenp take_Suc_conv_app_nth[of k permutation] by simp
  have sc: "set cur = set (take k cur) \<union> {cur ! k}"
    by (subst c) simp
  have sp: "set permutation = set (take k permutation) \<union> {permutation ! k}"
    by (subst p) simp
  have "distinct (take k cur @ [cur ! k])" using dc c by simp
  then have nc: "cur ! k \<notin> set (take k cur)" by simp
  have "distinct (take k permutation @ [permutation ! k])" using dp p by simp
  then have np: "permutation ! k \<notin> set (take k permutation)" by simp
  have "cur ! k = permutation ! k"
    using sets sc sp nc np tk' by auto
  then show ?thesis using c p tk' by simp
qed

lemma transposeAlotNp_is_transpose:
  assumes vp: "valid_permutation permutation (length (shape t))" and wf: "wf_tensor t"
  shows "transposeAlotNp t permutation = transpose_np t permutation"
proof -
  from vp have len: "length permutation = length (shape t)"
    by (simp add: valid_permutation_def)
  from transposeAlotNp_loop_inv[OF vp wf order_refl]
  obtain st where st: "transposeAlotNp_loop t permutation (length permutation - 1) = Inr st"
    and inv: "loop_inv t permutation (length permutation - 1) st" by blast
  define cur where "cur = current_permutation st"
  from inv have vc: "valid_permutation cur (length permutation)"
    and tk: "take (length permutation - 1) cur = take (length permutation - 1) permutation"
    and md: "model st = gather t (map (\<lambda>a. shape t ! a) cur) (source_index cur)"
    by (simp_all add: loop_inv_def cur_def)
  have "cur = permutation"
    using vc vp tk unfolding len by (rule permutation_determined_by_prefix)
  then have "model st = gather t (map (\<lambda>a. shape t ! a) permutation) (source_index permutation)"
    using md by simp
  then show ?thesis
    using st vp by (simp add: transposeAlotNp_def transpose_np_def)
qed

lemma valid_permutation_nth:
  "valid_permutation axes n \<Longrightarrow> i < n \<Longrightarrow> axes ! i < n"
  by (simp add: valid_permutation_def list_all_length)

lemma index_of_valid:
  assumes "valid_permutation axes n" and "a < n"
  shows "index_of axes a < n" and "axes ! index_of axes a = a"
proof -
  from assms(1) have len: "length axes = n" by (simp add: valid_permutation_def)
  have "a \<in> set axes" using valid_permutation_set[OF assms(1)] assms(2) by simp
  then show "index_of axes a < n" and "axes ! index_of axes a = a"
    using len index_of_less[of a axes] nth_index_of[of a axes] by simp_all
qed

lemma valid_source_index:
  assumes vp: "valid_permutation axes n" and len: "length s = n"
    and v: "list_all2 (\<lambda>i d. i < d) ix (map (\<lambda>a. s ! a) axes)"
  shows "list_all2 (\<lambda>i d. i < d) (source_index axes ix) s"
proof -
  from vp have la: "length axes = n" by (simp add: valid_permutation_def)
  from v have li: "length ix = n" using la by (simp add: list_all2_lengthD)
  have "\<And>a. a < n \<Longrightarrow> ix ! index_of axes a < s ! a"
  proof -
    fix a assume a: "a < n"
    have p: "index_of axes a < n" and q: "axes ! index_of axes a = a"
      using index_of_valid[OF vp a] by simp_all
    have "ix ! index_of axes a < map (\<lambda>a. s ! a) axes ! index_of axes a"
      using v p li la by (simp add: list_all2_conv_all_nth)
    then show "ix ! index_of axes a < s ! a" using p q la by simp
  qed
  then show ?thesis
    using la len by (simp add: list_all2_conv_all_nth source_index_def)
qed

lemma source_index_of_permuted:
  assumes vp: "valid_permutation axes n" and li: "length ix = n"
  shows "source_index axes (map (\<lambda>a. ix ! a) axes) = ix"
proof -
  from vp have la: "length axes = n" by (simp add: valid_permutation_def)
  have "\<And>a. a < n \<Longrightarrow> map (\<lambda>a. ix ! a) axes ! index_of axes a = ix ! a"
    using index_of_valid[OF vp] la by simp
  then have "map (\<lambda>a. map (\<lambda>a. ix ! a) axes ! index_of axes a) [0..<n] = map (\<lambda>a. ix ! a) [0..<n]"
    by simp
  also have "\<dots> = ix" using li map_nth[of ix] by simp
  finally show ?thesis by (simp add: source_index_def la)
qed

lemma valid_permuted_index:
  assumes vp: "valid_permutation axes n" and len: "length s = n"
    and v: "list_all2 (\<lambda>i d. i < d) ix s"
  shows "list_all2 (\<lambda>i d. i < d) (map (\<lambda>a. ix ! a) axes) (map (\<lambda>a. s ! a) axes)"
proof -
  from v have li: "length ix = n" using len by (simp add: list_all2_lengthD)
  from vp have "\<And>a. a \<in> set axes \<Longrightarrow> a < n" by (simp add: valid_permutation_def list_all_iff)
  then have "\<And>a. a \<in> set axes \<Longrightarrow> ix ! a < s ! a"
    using v li len by (simp add: list_all2_conv_all_nth)
  then show ?thesis by (simp add: list_all2_conv_all_nth)
qed

lemma valid_permutation_inverse:
  assumes vp: "valid_permutation axes n"
  shows "valid_permutation (inverse_permutation axes) n"
proof -
  from vp have la: "length axes = n" by (simp add: valid_permutation_def)
  have "inj_on (index_of axes) {0..<n}"
  proof (rule inj_onI)
    fix a b assume a: "a \<in> {0..<n}" and b: "b \<in> {0..<n}"
      and e: "index_of axes a = index_of axes b"
    have "a = axes ! index_of axes a"
      using index_of_valid(2)[OF vp, of a] a by simp
    also have "\<dots> = axes ! index_of axes b"
      by (simp only: e)
    also have "\<dots> = b"
      using index_of_valid(2)[OF vp, of b] b by simp
    finally show "a = b" .
  qed
  then have "distinct (map (index_of axes) [0..<n])" by (simp add: distinct_map)
  moreover have "list_all (\<lambda>a. a < n) (map (index_of axes) [0..<n])"
    using index_of_valid(1)[OF vp] by (simp add: list_all_iff)
  ultimately show ?thesis
    by (simp add: valid_permutation_def inverse_permutation_def la)
qed

lemma index_of_inverse:
  assumes vp: "valid_permutation axes n" and a: "a < n"
  shows "index_of (inverse_permutation axes) (index_of axes a) = a"
proof -
  from vp have la: "length axes = n" by (simp add: valid_permutation_def)
  from valid_permutation_inverse[OF vp]
  have d: "distinct (inverse_permutation axes)" and li: "length (inverse_permutation axes) = n"
    by (simp_all add: valid_permutation_def)
  have "inverse_permutation axes ! a = index_of axes a"
    using a la by (simp add: inverse_permutation_def)
  then show ?thesis using index_of_nth[OF d, of a] a li by simp
qed

lemma nth_inverse_permutation:
  assumes vp: "valid_permutation axes n" and a: "a < n"
  shows "axes ! (inverse_permutation axes ! a) = a"
proof -
  from vp have la: "length axes = n" by (simp add: valid_permutation_def)
  show ?thesis using a la index_of_valid(2)[OF vp a] by (simp add: inverse_permutation_def)
qed

lemma transpose_np_inverse:
  assumes vp: "valid_permutation axes (length (shape t))" and wf: "wf_tensor t"
    and r: "transpose_np t axes = Inr r"
  shows "transpose_np r (inverse_permutation axes) = Inr t"
proof -
  define n where "n = length (shape t)"
  define inv where "inv = inverse_permutation axes"
  let ?s1 = "map (\<lambda>a. shape t ! a) axes"
  from vp have la: "length axes = n" by (simp add: valid_permutation_def n_def)
  have vi: "valid_permutation inv n"
    using valid_permutation_inverse[OF vp] by (simp add: inv_def n_def)
  then have li: "length inv = n" by (simp add: valid_permutation_def)
  from r vp have r_def: "r = gather t ?s1 (source_index axes)"
    by (simp add: transpose_np_def)
  have ls1: "length ?s1 = n" using la by simp
  have "\<And>a. a < n \<Longrightarrow> ?s1 ! (inv ! a) = shape t ! a"
  proof -
    fix a assume a: "a < n"
    have "inv ! a < n" using valid_permutation_nth[OF vi a] .
    then have "?s1 ! (inv ! a) = shape t ! (axes ! (inv ! a))" using la by simp
    then show "?s1 ! (inv ! a) = shape t ! a"
      using nth_inverse_permutation[OF vp] a by (simp add: inv_def n_def)
  qed
  then have "map (\<lambda>a. ?s1 ! a) inv = map (\<lambda>a. shape t ! a) [0..<n]"
    using li by (intro nth_equalityI) simp_all
  also have "\<dots> = shape t" using map_nth[of "shape t"] by (simp add: n_def)
  finally have s2: "map (\<lambda>a. ?s1 ! a) inv = shape t" .
  have "gather r (shape t) (source_index inv)
        = gather t (shape t) (\<lambda>ix. source_index axes (source_index inv ix))"
    unfolding r_def
  proof (rule gather_gather)
    fix ix assume "list_all2 (\<lambda>i d. i < d) ix (shape t)"
    then have "list_all2 (\<lambda>i d. i < d) ix (map (\<lambda>a. ?s1 ! a) inv)" by (simp only: s2)
    with vi ls1 show "list_all2 (\<lambda>i d. i < d) (source_index inv ix) ?s1"
      by (rule valid_source_index)
  qed
  also have "\<dots> = t"
    using wf
  proof (rule gather_id)
    fix ix assume "list_all2 (\<lambda>i d. i < d) ix (shape t)"
    then have lx: "length ix = n" by (simp add: list_all2_lengthD n_def)
    have "\<And>a. a < n \<Longrightarrow> source_index inv ix ! index_of axes a = ix ! a"
    proof -
      fix a assume a: "a < n"
      have "index_of axes a < n" using index_of_valid(1)[OF vp] a by (simp add: n_def)
      then have "source_index inv ix ! index_of axes a = ix ! index_of inv (index_of axes a)"
        using li by (simp add: source_index_def)
      then show "source_index inv ix ! index_of axes a = ix ! a"
        using index_of_inverse[OF vp] a by (simp add: inv_def n_def)
    qed
    then have "map (\<lambda>a. source_index inv ix ! index_of axes a) [0..<n] = map (\<lambda>a. ix ! a) [0..<n]"
      by simp
    also have "\<dots> = ix" using lx map_nth[of ix] by simp
    finally show "source_index axes (source_index inv ix) = ix"
      by (simp add: source_index_def la)
  qed
  finally have "gather r (map (\<lambda>a. shape r ! a) inv) (source_index inv) = t"
    using s2 by (simp add: r_def shape_gather)
  moreover have "valid_permutation inv (length (shape r))"
    using vi la by (simp add: r_def shape_gather)
  ultimately show ?thesis by (simp add: transpose_np_def inv_def)
qed

lemma wf_test_data: "wf_tensor test_data"
  by (simp add: wf_tensor_def test_data_def)

lemma elem_transpose_np:
  assumes vp: "valid_permutation axes (length (shape t))"
    and r: "transpose_np t axes = Inr r"
    and v: "list_all2 (\<lambda>i d. i < d) ix (shape t)"
  shows "elem r (map (\<lambda>a. ix ! a) axes) = elem t ix"
proof -
  from r vp have r_def: "r = gather t (map (\<lambda>a. shape t ! a) axes) (source_index axes)"
    by (simp add: transpose_np_def)
  have li: "length ix = length (shape t)" using v by (rule list_all2_lengthD)
  have "list_all2 (\<lambda>i d. i < d) (map (\<lambda>a. ix ! a) axes) (map (\<lambda>a. shape t ! a) axes)"
    using vp refl v by (rule valid_permuted_index)
  then have "elem r (map (\<lambda>a. ix ! a) axes) = elem t (source_index axes (map (\<lambda>a. ix ! a) axes))"
    unfolding r_def by (rule elem_gather)
  then show ?thesis using source_index_of_permuted[OF vp li] by simp
qed

lemma outer_body_identity:
  "i < n \<Longrightarrow> outer_body [0..<n] n i (initial_state t n) = Inr (initial_state t n)"
  by (simp add: outer_body_def initial_state_def)

lemma for_loop_identity:
  "list_all (\<lambda>i. i < n) xs \<Longrightarrow>
   for_loop (outer_body [0..<n] n) xs (initial_state t n) = Inr (initial_state t n)"
  by (induction xs) (simp_all add: outer_body_identity)

lemma transposeAlotNp_loop_identity:
  "transposeAlotNp_loop t [0..<n] (n - 1) = Inr (initial_state t n)"
proof -
  have "list_all (\<lambda>i. i < n) [0..<n - 1]" by (auto simp: list_all_iff)
  then show ?thesis
    using for_loop_identity[of n "[0..<n - 1]" t] by (simp add: transposeAlotNp_loop_def)
qed

lemma int_of_quotient: "int_of (of_nat a / of_nat b) = a div b"
  by (simp add: int_of_def floor_divide_of_nat_eq)

lemma truediv_pos: "0 < b \<Longrightarrow> truediv a b = Inr (of_nat a / of_nat b)"
  by (simp add: truediv_def)

lemma valid_permutation_window: "valid_permutation [0, 2, 4, 1, 3] 5"
  by (simp add: valid_permutation_def)

lemma source_index_window:
  "source_index [0, 2, 4, 1, 3] [a, b, c, d, e] = [a, d, b, e, c]"
  by (simp add: source_index_def index_of_def upt_rec)

lemma set_shape_ok:
  "prod_list s = length (data t) \<Longrightarrow> set_shape t s = Inr (t\<lparr>shape := s\<rparr>)"
  by (simp add: set_shape_def)

lemma transpose_window:
  assumes "length (data t) = prod_list [c, wq, ww, hq, wh]"
  shows "transposeAlotNp (t\<lparr>shape := [c, wq, ww, hq, wh]\<rparr>) [0, 2, 4, 1, 3]
         = Inr (gather (t\<lparr>shape := [c, wq, ww, hq, wh]\<rparr>) [c, ww, wh, wq, hq]
                  (source_index [0, 2, 4, 1, 3]))"
proof -
  let ?t1 = "t\<lparr>shape := [c, wq, ww, hq, wh]\<rparr>"
  have wf: "wf_tensor ?t1" using assms by (simp add: wf_tensor_def)
  have vp: "valid_permutation [0, 2, 4, 1, 3] (length (shape ?t1))"
    by (simp add: valid_permutation_def)
  have "transposeAlotNp ?t1 [0, 2, 4, 1, 3] = transpose_np ?t1 [0, 2, 4, 1, 3]"
    using vp wf by (rule transposeAlotNp_is_transpose)
  also have "\<dots> = Inr (gather ?t1 (map (\<lambda>a. shape ?t1 ! a) [0, 2, 4, 1, 3])
                       (source_index [0, 2, 4, 1, 3]))"
    using vp by (simp only: transpose_np_def if_True)
  also have "map (\<lambda>a. shape ?t1 ! a) [0, 2, 4, 1, 3] = [c, ww, wh, wq, hq]"
    by simp
  finally show ?thesis .
qed

lemma depth_increasing_pooling_computed:
  assumes ww: "0 < ww" and wh: "0 < wh"
    and ish: "(case input_shape_arg of None \<Rightarrow> shape t | Some s \<Rightarrow> s) = [c, w, h]"
    and len: "length (data t) = prod_list [c, w div ww, ww, h div wh, wh]"
  shows "depth_increasing_pooling t (ww, wh) input_shape_arg =
     Inr \<lparr>shape = [c * ww * wh, w div ww, h div wh],
          data = data (gather (t\<lparr>shape := [c, w div ww, ww, h div wh, wh]\<rparr>)
                         [c, ww, wh, w div ww, h div wh] (source_index [0, 2, 4, 1, 3]))\<rparr>"
proof -
  let ?s1 = "[c, w div ww, ww, h div wh, wh]"
  let ?g = "gather (t\<lparr>shape := ?s1\<rparr>) [c, ww, wh, w div ww, h div wh]
              (source_index [0, 2, 4, 1, 3])"
  have r1: "reshape t [PyInt c, PyInt (w div ww), PyInt ww, PyInt (h div wh), PyInt wh]
            = Inr (t\<lparr>shape := ?s1\<rparr>)"
    using len by (simp add: reshape_def set_shape_def)
  have tr: "transpose_a_lot (t\<lparr>shape := ?s1\<rparr>) [0, 2, 4, 1, 3] = Inr ?g"
    unfolding transpose_a_lot_def using len by (rule transpose_window)
  have "prod_list [c * ww * wh, w div ww, h div wh] = length (data ?g)"
    by (simp add: gather_def)
  then have r2: "reshape ?g [PyInt (c * ww * wh), PyFloat (of_nat w / of_nat ww),
                            PyFloat (of_nat h / of_nat wh)]
            = Inr \<lparr>shape = [c * ww * wh, w div ww, h div wh], data = data ?g\<rparr>"
    by (simp add: reshape_def set_shape_def int_of_quotient gather_def)
  show ?thesis
    using ww wh r1 tr r2
    by (simp add: depth_increasing_pooling_def ish truediv_pos int_of_quotient
        del: prod_list.Cons)
qed


lemma dip_with_computed:
  assumes ww: "0 < ww" and wh: "0 < wh"
    and sh: "shape t = [c, w, h]"
    and len: "length (data t) = prod_list [c, w div ww, ww, h div wh, wh]"
    and tr: "transpose_fn (t\<lparr>shape := [c, w div ww, ww, h div wh, wh]\<rparr>) [0, 2, 4, 1, 3]
             = Inr (gather (t\<lparr>shape := [c, w div ww, ww, h div wh, wh]\<rparr>)
                      [c, ww, wh, w div ww, h div wh] (source_index [0, 2, 4, 1, 3]))"
  shows "dip_with transpose_fn t (ww, wh) =
     Inr \<lparr>shape = [c * ww * wh, w div ww, h div wh],
          data = data (gather (t\<lparr>shape := [c, w div ww, ww, h div wh, wh]\<rparr>)
                         [c, ww, wh, w div ww, h div wh] (source_index [0, 2, 4, 1, 3]))\<rparr>"
proof -
  let ?s1 = "[c, w div ww, ww, h div wh, wh]"
  let ?g = "gather (t\<lparr>shape := ?s1\<rparr>) [c, ww, wh, w div ww, h div wh]
              (source_index [0, 2, 4, 1, 3])"
  have r1: "set_shape t ?s1 = Inr (t\<lparr>shape := ?s1\<rparr>)"
    using len by (simp add: set_shape_def)
  have "prod_list [c * ww * wh, w div ww, h div wh] = length (data ?g)"
    by (simp add: gather_def)
  then have r2: "set_shape ?g [c * ww * wh, w div ww, h div wh]
            = Inr \<lparr>shape = [c * ww * wh, w div ww, h div wh], data = data ?g\<rparr>"
    by (simp add: set_shape_def gather_def)
  show ?thesis
    using ww wh r1 tr r2
    by (simp add: dip_with_def sh truediv_pos int_of_quotient del: prod_list.Cons)
qed

lemma transpose_np_window:
  assumes "length (data t) = prod_list [c, wq, ww, hq, wh]"
  shows "transpose_np (t\<lparr>shape := [c, wq, ww, hq, wh]\<rparr>) [0, 2, 4, 1, 3]
         = Inr (gather (t\<lparr>shape := [c, wq, ww, hq, wh]\<rparr>) [c, ww, wh, wq, hq]
                  (source_index [0, 2, 4, 1, 3]))"
  by (simp add: transpose_np_def valid_permutation_def)

lemma dip_np_computed:
  assumes "0 < ww" and "0 < wh" and "shape t = [c, w, h]"
    and len: "length (data t) = prod_list [c, w div ww, ww, h div wh, wh]"
  shows "dip_np t (ww, wh) =
     Inr \<lparr>shape = [c * ww * wh, w div ww, h div wh],
          data = data (gather (t\<lparr>shape := [c, w div ww, ww, h div wh, wh]\<rparr>)
                         [c, ww, wh, w div ww, h div wh] (source_index [0, 2, 4, 1, 3]))\<rparr>"
  unfolding dip_np_def
  using assms
proof (rule dip_with_computed)
  show "map_sum id ascontiguousarray
          (transpose_np (t\<lparr>shape := [c, w div ww, ww, h div wh, wh]\<rparr>) [0, 2, 4, 1, 3])
        = Inr (gather (t\<lparr>shape := [c, w div ww, ww, h div wh, wh]\<rparr>)
                 [c, ww, wh, w div ww, h div wh] (source_index [0, 2, 4, 1, 3]))"
    by (simp only: transpose_np_window[OF len] map_sum.simps ascontiguousarray_def)
qed

lemma dip_swap_np_computed:
  assumes "0 < ww" and "0 < wh" and "shape t = [c, w, h]"
    and len: "length (data t) = prod_list [c, w div ww, ww, h div wh, wh]"
  shows "dip_swap_np t (ww, wh) =
     Inr \<lparr>shape = [c * ww * wh, w div ww, h div wh],
          data = data (gather (t\<lparr>shape := [c, w div ww, ww, h div wh, wh]\<rparr>)
                         [c, ww, wh, w div ww, h div wh] (source_index [0, 2, 4, 1, 3]))\<rparr>"
  unfolding dip_swap_np_def
  using assms transpose_window[OF len]
  by (rule dip_with_computed)

lemma pooled_elem:
  assumes len: "length (data t) = prod_list [c, wq, ww, hq, wh]"
    and c0: "c0 < c" and r: "r < ww" and col: "col < wh" and gx: "gx < wq" and gy: "gy < hq"
  shows "elem \<lparr>shape = [c * ww * wh, wq, hq],
               data = data (gather (t\<lparr>shape := [c, wq, ww, hq, wh]\<rparr>)
                              [c, ww, wh, wq, hq] (source_index [0, 2, 4, 1, 3]))\<rparr>
              [c0 * ww * wh + r * wh + col, gx, gy]
         = data t ! ravel [c, wq, ww, hq, wh] [c0, gx, r, gy, col]"
proof -
  let ?t1 = "t\<lparr>shape := [c, wq, ww, hq, wh]\<rparr>"
  let ?g = "gather ?t1 [c, ww, wh, wq, hq] (source_index [0, 2, 4, 1, 3])"
  have rv: "ravel [c * ww * wh, wq, hq] [c0 * ww * wh + r * wh + col, gx, gy]
            = ravel [c, ww, wh, wq, hq] [c0, r, col, gx, gy]"
    by (simp add: algebra_simps)
  have v: "list_all2 (\<lambda>i d. i < d) [c0, r, col, gx, gy] [c, ww, wh, wq, hq]"
    using c0 r col gx gy by simp
  have "elem \<lparr>shape = [c * ww * wh, wq, hq], data = data ?g\<rparr>
             [c0 * ww * wh + r * wh + col, gx, gy]
        = data ?g ! ravel [c, ww, wh, wq, hq] [c0, r, col, gx, gy]"
    by (simp only: elem_def tensor.simps rv)
  also have "\<dots> = elem ?g [c0, r, col, gx, gy]"
    by (simp only: elem_def shape_gather)
  also have "\<dots> = elem ?t1 (source_index [0, 2, 4, 1, 3] [c0, r, col, gx, gy])"
    using v by (rule elem_gather)
  also have "\<dots> = elem ?t1 [c0, gx, r, gy, col]"
    by (simp only: source_index_window)
  also have "\<dots> = data t ! ravel [c, wq, ww, hq, wh] [c0, gx, r, gy, col]"
    by (simp add: elem_def)
  finally show ?thesis .
qed

lemma outer_body_error:
  "outer_body permutation n i st = Inl e \<Longrightarrow> e = AxisError"
  by (auto simp: outer_body_def swapaxes_def Let_def split: if_splits sum.splits)

lemma for_loop_error:
  assumes "\<And>i st e. body i st = Inl e \<Longrightarrow> e = AxisError"
  shows "for_loop body xs st = Inl e \<Longrightarrow> e = AxisError"
proof (induction xs arbitrary: st)
  case Nil
  then show ?case by simp
next
  case (Cons x xs)
  show ?case
  proof (cases "body x st")
    case (Inl e')
    then show ?thesis using Cons.prems assms[of x st e'] by simp
  next
    case (Inr st')
    then show ?thesis using Cons.prems Cons.IH[of st'] by simp
  qed
qed

lemma transposeAlotNp_error:
  "transposeAlotNp t permutation = Inl e \<Longrightarrow> e = AxisError"
proof -
  assume a: "transposeAlotNp t permutation = Inl e"
  then have "transposeAlotNp_loop t permutation (length permutation - 1) = Inl e"
    by (simp add: transposeAlotNp_def split: sum.splits)
  then show "e = AxisError"
    unfolding transposeAlotNp_loop_def Let_def
    using for_loop_error[of "outer_body permutation (length permutation)"] outer_body_error
    by blast
qed

lemma reshape_error: "reshape t s = Inl e \<Longrightarrow> e = ValueError"
  by (simp add: reshape_def set_shape_def split: if_splits)

lemma truediv_error: "truediv a b = Inl e \<Longrightarrow> e = ZeroDivisionError"
  by (simp add: truediv_def split: if_splits)

lemma pooling_element_count:
  assumes "ww dvd w" and "wh dvd h"
  shows "prod_list [c, w div ww, ww, h div wh, wh] = (c::nat) * w * h"
proof -
  have "w div ww * ww = w" using assms(1) by simp
  moreover have "h div wh * wh = h" using assms(2) by simp
  ultimately have "c * (w div ww * ww) * (h div wh * wh) = c * w * h" by simp
  then show ?thesis by (simp add: mult.assoc)
qed

lemma pooling_source_position:
  assumes "ww dvd w" and "wh dvd h"
  shows "ravel [c, w div ww, ww, h div wh, wh] [c0, gx, r, gy, col]
         = ravel [c, w, h] [c0, gx * ww + r, gy * wh + col]"
proof -
  have w: "w = w div ww * ww" using assms(1) by simp
  have h: "h = h div wh * wh" using assms(2) by simp
  have "ravel [c, w div ww * ww, h div wh * wh] [c0, gx * ww + r, gy * wh + col]
        = ravel [c, w div ww, ww, h div wh, wh] [c0, gx, r, gy, col]"
    by (simp add: algebra_simps)
  then show ?thesis using w h by simp
qed




section \<open>Verified properties\<close>

text \<open>
  C7. On the array \<^verbatim>\<open>data\<close> of the test, of shape (2,4,4), with window (2,2),
  \<^verbatim>\<open>depth_increasing_pooling\<close> returns exactly the array \<^verbatim>\<open>expected\<close> of shape (8,2,2):
  the channels [[0,2],[20,22]], [[1,3],[21,23]], [[10,12],[30,32]], [[11,13],[31,33]] and then
  the same four shifted by 100. The numpy reference \<^verbatim>\<open>dip_np\<close> returns the same array, as
  the two assertions of the test say.
\<close>

theorem test_depth_increasing_pooling_passes:
  "depth_increasing_pooling test_data (2, 2) None = Inr test_expected
   \<and> dip_np test_data (2, 2) = Inr test_expected"
  by code_simp

text \<open>
  C3. For every array and every valid permutation of its axes, the selection-swap
  \<^verbatim>\<open>transposeAlotNp\<close>, built from pairwise axis swaps only, returns what the direct
  \<^verbatim>\<open>np.transpose\<close> by the same permutation returns: output axis \<open>i\<close> is input axis
  \<open>permutation ! i\<close>, so the result has the permuted shape and holds, at the permuted
  index, the input's element.
\<close>

theorem transposeAlotNp_refines_transpose:
  assumes "wf_tensor t" and "valid_permutation permutation (length (shape t))"
  shows "\<exists>r. transposeAlotNp t permutation = Inr r
            \<and> transpose_np t permutation = Inr r
            \<and> shape r = map (\<lambda>a. shape t ! a) permutation
            \<and> (\<forall>ix. valid_index (shape t) ix
                   \<longrightarrow> elem r (map (\<lambda>a. ix ! a) permutation) = elem t ix)"
proof -
  define r where "r = gather t (map (\<lambda>a. shape t ! a) permutation) (source_index permutation)"
  have tr: "transpose_np t permutation = Inr r"
    using assms(2) by (simp add: transpose_np_def r_def)
  have "transposeAlotNp t permutation = Inr r"
    using transposeAlotNp_is_transpose[OF assms(2,1)] tr by simp
  moreover have "shape r = map (\<lambda>a. shape t ! a) permutation"
    by (simp add: r_def shape_gather)
  moreover have "\<forall>ix. valid_index (shape t) ix
                   \<longrightarrow> elem r (map (\<lambda>a. ix ! a) permutation) = elem t ix"
    using elem_transpose_np[OF assms(2) tr] by (simp add: valid_index_def)
  ultimately show ?thesis using tr by blast
qed

theorem transposeAlotNp_refines_transpose_witness:
  "wf_tensor test_data \<and> valid_permutation [2, 0, 1] (length (shape test_data))
   \<and> valid_index (shape test_data) [1, 2, 3]
   \<and> (\<exists>r. transposeAlotNp test_data [2, 0, 1] = Inr r
          \<and> transpose_np test_data [2, 0, 1] = Inr r
          \<and> shape r = [4, 2, 4] \<and> elem r [3, 1, 2] = 123)"
proof -
  have b: "valid_permutation [2, 0, 1] (length (shape test_data))"
    by (simp add: valid_permutation_def test_data_def)
  have v: "valid_index (shape test_data) [1, 2, 3]"
    by (simp add: valid_index_def test_data_def)
  from transposeAlotNp_refines_transpose[OF wf_test_data b]
  obtain r where r: "transposeAlotNp test_data [2, 0, 1] = Inr r"
    and tr: "transpose_np test_data [2, 0, 1] = Inr r"
    and sh: "shape r = map (\<lambda>a. shape test_data ! a) [2, 0, 1]"
    and el: "\<forall>ix. valid_index (shape test_data) ix
                \<longrightarrow> elem r (map (\<lambda>a. ix ! a) [2, 0, 1]) = elem test_data ix"
    by blast
  from el v have "elem r (map (\<lambda>a. [1, 2, 3] ! a) [2, 0, 1]) = elem test_data [1, 2, 3]"
    by blast
  then have e: "elem r [3, 1, 2] = 123"
    by (simp add: elem_def test_data_def)
  from sh have s: "shape r = [4, 2, 4]" by (simp add: test_data_def)
  show ?thesis using wf_test_data b v r tr s e by blast
qed

text \<open>
  C10. The invariant of the outer loop of \<^verbatim>\<open>transposeAlotNp\<close>, for a valid permutation
  of the array's axes: at the end of iteration \<open>i\<close> the bookkeeping array
  \<^verbatim>\<open>current_permutation\<close> is a permutation of \<open>0..<n\<close> and agrees with the target at
  the positions \<open>0..i\<close>; after the loop over the positions \<open>0..n-2\<close> it equals the
  target at every position, the last included.
\<close>

theorem current_permutation_invariant:
  assumes "wf_tensor t" and "valid_permutation permutation (length (shape t))"
  shows "(\<forall>i < length permutation - 1.
            \<exists>st. transposeAlotNp_loop t permutation (Suc i) = Inr st
               \<and> valid_permutation (current_permutation st) (length permutation)
               \<and> take (Suc i) (current_permutation st) = take (Suc i) permutation)
         \<and> (\<exists>st. transposeAlotNp_loop t permutation (length permutation - 1) = Inr st
               \<and> current_permutation st = permutation)"
proof (intro conjI allI impI)
  fix i assume "i < length permutation - 1"
  then have "Suc i \<le> length permutation - 1" by simp
  from transposeAlotNp_loop_inv[OF assms(2,1) this]
  show "\<exists>st. transposeAlotNp_loop t permutation (Suc i) = Inr st
               \<and> valid_permutation (current_permutation st) (length permutation)
               \<and> take (Suc i) (current_permutation st) = take (Suc i) permutation"
    by (auto simp: loop_inv_def)
next
  from assms(2) have len: "length permutation = length (shape t)"
    by (simp add: valid_permutation_def)
  from transposeAlotNp_loop_inv[OF assms(2,1) order_refl]
  obtain st where st: "transposeAlotNp_loop t permutation (length permutation - 1) = Inr st"
    and inv: "loop_inv t permutation (length permutation - 1) st" by blast
  from inv have vc: "valid_permutation (current_permutation st) (length permutation)"
    and tk: "take (length permutation - 1) (current_permutation st)
         = take (length permutation - 1) permutation"
    by (simp_all add: loop_inv_def)
  have "current_permutation st = permutation"
    using vc assms(2) tk unfolding len by (rule permutation_determined_by_prefix)
  with st show "\<exists>st. transposeAlotNp_loop t permutation (length permutation - 1) = Inr st
               \<and> current_permutation st = permutation" by blast
qed

theorem current_permutation_invariant_witness:
  "wf_tensor test_data \<and> valid_permutation [2, 0, 1] (length (shape test_data))
   \<and> (0::nat) < length [2, 0, 1 :: nat] - 1
   \<and> (\<exists>st. transposeAlotNp_loop test_data [2, 0, 1] (Suc 0) = Inr st
          \<and> valid_permutation (current_permutation st) (length [2, 0, 1 :: nat])
          \<and> take (Suc 0) (current_permutation st) = take (Suc 0) [2, 0, 1])
   \<and> (\<exists>st. transposeAlotNp_loop test_data [2, 0, 1] (length [2, 0, 1 :: nat] - 1) = Inr st
          \<and> current_permutation st = [2, 0, 1])"
proof -
  have b: "valid_permutation [2, 0, 1] (length (shape test_data))"
    by (simp add: valid_permutation_def test_data_def)
  have c: "(0::nat) < length [2, 0, 1 :: nat] - 1" by simp
  note inv = current_permutation_invariant[OF wf_test_data b]
  from inv c have d: "\<exists>st. transposeAlotNp_loop test_data [2, 0, 1] (Suc 0) = Inr st
          \<and> valid_permutation (current_permutation st) (length [2, 0, 1 :: nat])
          \<and> take (Suc 0) (current_permutation st) = take (Suc 0) [2, 0, 1]"
    by blast
  from inv have e: "\<exists>st. transposeAlotNp_loop test_data [2, 0, 1] (length [2, 0, 1 :: nat] - 1) = Inr st
          \<and> current_permutation st = [2, 0, 1]"
    by blast
  show ?thesis using wf_test_data b c d e by blast
qed

text \<open>
  C8. With the identity permutation \<open>[0, 1, ..., n-1]\<close> of its \<open>n\<close> axes,
  \<^verbatim>\<open>transposeAlotNp\<close> returns the array it was given: the loop ends in the state it
  started in, so no axis was swapped and no element moved.
\<close>

theorem transposeAlotNp_identity:
  "transposeAlotNp t [0..<length (shape t)] = Inr t
   \<and> transposeAlotNp_loop t [0..<length (shape t)] (length (shape t) - 1)
       = Inr \<lparr>model = t, current_permutation = [0..<length (shape t)], swaps = 0\<rparr>"
  using transposeAlotNp_loop_identity[of t "length (shape t)"]
  by (simp add: transposeAlotNp_def initial_state_def)

text \<open>
  C9. On an array and a valid permutation of its \<open>n\<close> axes, a run of
  \<^verbatim>\<open>transposeAlotNp\<close> ends in exactly one state: it has made at most \<open>n - 1\<close> axis
  swaps, and its array is the result returned. The outcome is a function of the array and
  the permutation alone.
\<close>

theorem transposeAlotNp_swap_count:
  assumes "wf_tensor t" and "valid_permutation permutation (length (shape t))"
  shows "\<exists>!st. transposeAlotNp_loop t permutation (length permutation - 1) = Inr st
             \<and> swaps st \<le> length permutation - 1
             \<and> transposeAlotNp t permutation = Inr (model st)"
proof -
  from transposeAlotNp_loop_inv[OF assms(2,1) order_refl]
  obtain st where st: "transposeAlotNp_loop t permutation (length permutation - 1) = Inr st"
    and inv: "loop_inv t permutation (length permutation - 1) st" by blast
  from inv have "swaps st \<le> length permutation - 1" by (simp add: loop_inv_def)
  moreover have "transposeAlotNp t permutation = Inr (model st)"
    using st by (simp add: transposeAlotNp_def)
  ultimately show ?thesis using st by auto
qed

theorem transposeAlotNp_swap_count_witness:
  "wf_tensor test_data \<and> valid_permutation [2, 0, 1] (length (shape test_data))
   \<and> (\<exists>!st. transposeAlotNp_loop test_data [2, 0, 1] (length [2, 0, 1 :: nat] - 1) = Inr st
          \<and> swaps st \<le> length [2, 0, 1 :: nat] - 1
          \<and> transposeAlotNp test_data [2, 0, 1] = Inr (model st))"
proof -
  have b: "valid_permutation [2, 0, 1] (length (shape test_data))"
    by (simp add: valid_permutation_def test_data_def)
  show ?thesis
    using wf_test_data b transposeAlotNp_swap_count[OF wf_test_data b] by (intro conjI)
qed

text \<open>
  C6. Round trip: permuting the axes of an array by a valid permutation with
  \<^verbatim>\<open>transposeAlotNp\<close> and then permuting the result by the inverse permutation gives the
  original array back, elements and shape. This holds for arrays of every rank, those
  of rank at most 5 included.
\<close>

theorem transposeAlotNp_round_trip:
  assumes "wf_tensor t" and "valid_permutation permutation (length (shape t))"
  shows "\<exists>r. transposeAlotNp t permutation = Inr r
            \<and> transposeAlotNp r (inverse_permutation permutation) = Inr t
            \<and> valid_permutation (inverse_permutation permutation) (length (shape t))
            \<and> (\<forall>a < length (shape t).
                   permutation ! (inverse_permutation permutation ! a) = a)"
proof -
  define r where "r = gather t (map (\<lambda>a. shape t ! a) permutation) (source_index permutation)"
  from assms(2) have len: "length permutation = length (shape t)"
    by (simp add: valid_permutation_def)
  have tr: "transpose_np t permutation = Inr r"
    using assms(2) by (simp add: transpose_np_def r_def)
  have fwd: "transposeAlotNp t permutation = Inr r"
    using transposeAlotNp_is_transpose[OF assms(2,1)] tr by simp
  have vi: "valid_permutation (inverse_permutation permutation) (length (shape t))"
    using assms(2) by (rule valid_permutation_inverse)
  have wr: "wf_tensor r" by (simp add: r_def wf_gather)
  have vr: "valid_permutation (inverse_permutation permutation) (length (shape r))"
    using vi len by (simp add: r_def shape_gather)
  have "transposeAlotNp r (inverse_permutation permutation)
        = transpose_np r (inverse_permutation permutation)"
    using vr wr by (rule transposeAlotNp_is_transpose)
  also have "\<dots> = Inr t"
    using assms(2,1) tr by (rule transpose_np_inverse)
  finally have bwd: "transposeAlotNp r (inverse_permutation permutation) = Inr t" .
  have "\<forall>a < length (shape t). permutation ! (inverse_permutation permutation ! a) = a"
    using nth_inverse_permutation[OF assms(2)] by simp
  with fwd bwd vi show ?thesis by blast
qed

theorem transposeAlotNp_round_trip_witness:
  "wf_tensor test_data \<and> valid_permutation [2, 0, 1] (length (shape test_data))
   \<and> (\<exists>r. transposeAlotNp test_data [2, 0, 1] = Inr r
          \<and> transposeAlotNp r (inverse_permutation [2, 0, 1]) = Inr test_data)"
proof -
  have b: "valid_permutation [2, 0, 1] (length (shape test_data))"
    by (simp add: valid_permutation_def test_data_def)
  from transposeAlotNp_round_trip[OF wf_test_data b]
  have "\<exists>r. transposeAlotNp test_data [2, 0, 1] = Inr r
          \<and> transposeAlotNp r (inverse_permutation [2, 0, 1]) = Inr test_data"
    by blast
  with wf_test_data b show ?thesis by blast
qed

text \<open>
  C1. Index mapping. For a tensor of shape (channels, width, height) and a window
  (ww, wh) with ww dividing the width and wh dividing the height,
  \<^verbatim>\<open>depth_increasing_pooling\<close> returns a tensor whose element at
  (c0*ww*wh + r*wh + col, gx, gy) is the input's element at (c0, gx*ww + r, gy*wh + col),
  for all c0 < channels, r < ww, col < wh, gx < width/ww, gy < height/wh. The numpy
  reference \<^verbatim>\<open>dip_np\<close> returns the same tensor.
\<close>

theorem depth_increasing_pooling_index_mapping:
  assumes "wf_tensor t" and "shape t = [c, w, h]"
    and "0 < ww" and "0 < wh" and "ww dvd w" and "wh dvd h"
    and "input_shape_arg = None \<or> input_shape_arg = Some [c, w, h]"
  shows "\<exists>out. depth_increasing_pooling t (ww, wh) input_shape_arg = Inr out
            \<and> dip_np t (ww, wh) = Inr out
            \<and> (\<forall>c0 < c. \<forall>r < ww. \<forall>col < wh. \<forall>gx < w div ww. \<forall>gy < h div wh.
                   elem out [c0 * ww * wh + r * wh + col, gx, gy]
                   = elem t [c0, gx * ww + r, gy * wh + col])"
proof -
  define out where "out =
     \<lparr>shape = [c * ww * wh, w div ww, h div wh],
      data = data (gather (t\<lparr>shape := [c, w div ww, ww, h div wh, wh]\<rparr>)
                     [c, ww, wh, w div ww, h div wh] (source_index [0, 2, 4, 1, 3]))\<rparr>"
  have len: "length (data t) = prod_list [c, w div ww, ww, h div wh, wh]"
    unfolding pooling_element_count[OF assms(5,6)]
    using assms(1,2) by (simp add: wf_tensor_def)
  have ish: "(case input_shape_arg of None \<Rightarrow> shape t | Some s \<Rightarrow> s) = [c, w, h]"
    using assms(2,7) by auto
  have a: "depth_increasing_pooling t (ww, wh) input_shape_arg = Inr out"
    unfolding out_def using assms(3,4) ish len by (rule depth_increasing_pooling_computed)
  have b: "dip_np t (ww, wh) = Inr out"
    unfolding out_def using assms(3,4,2) len by (rule dip_np_computed)
  have "\<And>c0 r col gx gy. c0 < c \<Longrightarrow> r < ww \<Longrightarrow> col < wh \<Longrightarrow> gx < w div ww
          \<Longrightarrow> gy < h div wh \<Longrightarrow>
          elem out [c0 * ww * wh + r * wh + col, gx, gy]
          = elem t [c0, gx * ww + r, gy * wh + col]"
  proof -
    fix c0 r col gx gy
    assume b: "c0 < c" "r < ww" "col < wh" "gx < w div ww" "gy < h div wh"
    have "elem out [c0 * ww * wh + r * wh + col, gx, gy]
          = data t ! ravel [c, w div ww, ww, h div wh, wh] [c0, gx, r, gy, col]"
      unfolding out_def using len b by (rule pooled_elem)
    also have "\<dots> = data t ! ravel [c, w, h] [c0, gx * ww + r, gy * wh + col]"
      by (simp only: pooling_source_position[OF assms(5,6)])
    also have "\<dots> = elem t [c0, gx * ww + r, gy * wh + col]"
      by (simp only: elem_def assms(2))
    finally show "elem out [c0 * ww * wh + r * wh + col, gx, gy]
          = elem t [c0, gx * ww + r, gy * wh + col]" .
  qed
  then show ?thesis using a b by blast
qed

theorem depth_increasing_pooling_index_mapping_witness:
  "wf_tensor test_data \<and> shape test_data = [2, 4, 4] \<and> (0::nat) < 2 \<and> (2::nat) dvd 4
   \<and> (\<exists>out. depth_increasing_pooling test_data (2, 2) None = Inr out
          \<and> dip_np test_data (2, 2) = Inr out
          \<and> elem out [6, 1, 1] = 132)"
proof -
  have s: "shape test_data = [2, 4, 4]" by (simp add: test_data_def)
  have p: "(0::nat) < 2" by simp
  have d: "(2::nat) dvd 4" by simp
  have n: "None = None \<or> None = Some [2::nat, 4, 4]" by simp
  from depth_increasing_pooling_index_mapping[OF wf_test_data s p p d d n]
  obtain out where a: "depth_increasing_pooling test_data (2, 2) None = Inr out"
    and b: "dip_np test_data (2, 2) = Inr out"
    and el: "\<forall>c0 < 2. \<forall>r < 2. \<forall>col < 2. \<forall>gx < 4 div 2. \<forall>gy < 4 div 2.
                elem out [c0 * 2 * 2 + r * 2 + col, gx, gy]
                = elem test_data [c0, gx * 2 + r, gy * 2 + col]"
    by blast
  have "elem out [1 * 2 * 2 + 1 * 2 + 0, 1, 1] = elem test_data [1, 1 * 2 + 1, 1 * 2 + 0]"
    using el[rule_format, of 1 1 0 1 1] by simp
  then have "elem out [6, 1, 1] = 132"
    by (simp add: elem_def test_data_def)
  with wf_test_data s p d a b show ?thesis by blast
qed

text \<open>
  C2. Shape law. For a tensor of shape (channels, width, height) and a window (ww, wh)
  with ww dividing the width and wh dividing the height, the tensor returned by
  \<^verbatim>\<open>depth_increasing_pooling\<close> has the shape (channels*ww*wh, width/ww, height/wh),
  whose entries are integers, and as many elements as the input. In particular the window
  (1,2) on a tensor of shape (C,4,4) gives the shape (C*2, 4, 2).
\<close>

theorem depth_increasing_pooling_shape:
  assumes "wf_tensor t" and "shape t = [c, w, h]"
    and "0 < ww" and "0 < wh" and "ww dvd w" and "wh dvd h"
    and "input_shape_arg = None \<or> input_shape_arg = Some [c, w, h]"
  shows "\<exists>out. depth_increasing_pooling t (ww, wh) input_shape_arg = Inr out
            \<and> shape out = [c * ww * wh, w div ww, h div wh]
            \<and> length (data out) = length (data t)
            \<and> prod_list (shape out) = prod_list (shape t)
            \<and> wf_tensor out
            \<and> (ww = 1 \<and> wh = 2 \<and> w = 4 \<and> h = 4 \<longrightarrow> shape out = [c * 2, 4, 2])"
proof -
  define out where "out =
     \<lparr>shape = [c * ww * wh, w div ww, h div wh],
      data = data (gather (t\<lparr>shape := [c, w div ww, ww, h div wh, wh]\<rparr>)
                     [c, ww, wh, w div ww, h div wh] (source_index [0, 2, 4, 1, 3]))\<rparr>"
  have cnt: "prod_list [c, w div ww, ww, h div wh, wh] = c * w * h"
    using assms(5,6) by (rule pooling_element_count)
  have len: "length (data t) = prod_list [c, w div ww, ww, h div wh, wh]"
    unfolding cnt using assms(1,2) by (simp add: wf_tensor_def)
  have ish: "(case input_shape_arg of None \<Rightarrow> shape t | Some s \<Rightarrow> s) = [c, w, h]"
    using assms(2,7) by auto
  have a: "depth_increasing_pooling t (ww, wh) input_shape_arg = Inr out"
    unfolding out_def using assms(3,4) ish len by (rule depth_increasing_pooling_computed)
  have sh: "shape out = [c * ww * wh, w div ww, h div wh]" by (simp add: out_def)
  have "length (data out) = prod_list [c, ww, wh, w div ww, h div wh]"
    by (simp add: out_def gather_def)
  also have "\<dots> = prod_list [c, w div ww, ww, h div wh, wh]"
    by (simp add: mult.assoc mult.left_commute)
  finally have ld: "length (data out) = length (data t)" using len by simp
  have pr: "prod_list (shape out) = prod_list (shape t)"
  proof -
    have "prod_list (shape out) = prod_list [c, w div ww, ww, h div wh, wh]"
      unfolding sh by (simp add: mult.assoc mult.left_commute)
    then show ?thesis using cnt assms(2) by (simp add: mult.assoc)
  qed
  have wfo: "wf_tensor out"
    using ld pr assms(1) by (simp add: wf_tensor_def)
  have "ww = 1 \<and> wh = 2 \<and> w = 4 \<and> h = 4 \<longrightarrow> shape out = [c * 2, 4, 2]"
    using sh by simp
  with a sh ld pr wfo show ?thesis by blast
qed

theorem depth_increasing_pooling_shape_witness:
  "wf_tensor \<lparr>shape = [3, 4, 4], data = replicate 48 (0::int)\<rparr>
   \<and> (0::nat) < 1 \<and> (0::nat) < 2 \<and> (1::nat) dvd 4 \<and> (2::nat) dvd 4
   \<and> (\<exists>out. depth_increasing_pooling \<lparr>shape = [3, 4, 4], data = replicate 48 (0::int)\<rparr>
                 (1, 2) None = Inr out
          \<and> shape out = [6, 4, 2] \<and> length (data out) = 48)"
proof -
  let ?t = "\<lparr>shape = [3, 4, 4], data = replicate 48 (0::int)\<rparr>"
  have wf: "wf_tensor ?t" by (simp add: wf_tensor_def)
  have s: "shape ?t = [3, 4, 4]" by simp
  have p1: "(0::nat) < 1" and p2: "(0::nat) < 2" by simp_all
  have d1: "(1::nat) dvd 4" and d2: "(2::nat) dvd 4" by simp_all
  have n: "None = None \<or> None = Some [3::nat, 4, 4]" by simp
  from depth_increasing_pooling_shape[OF wf s p1 p2 d1 d2 n]
  obtain out where a: "depth_increasing_pooling ?t (1, 2) None = Inr out"
    and sh: "shape out = [3 * 1 * 2, 4 div 1, 4 div 2]"
    and ld: "length (data out) = length (data ?t)"
    by blast
  from sh have sh': "shape out = [6, 4, 2]" by simp
  from ld have ld': "length (data out) = 48" by simp
  from wf p1 p2 d1 d2 a sh' ld' show ?thesis by blast
qed




text \<open>
  C5. \<^verbatim>\<open>depth_increasing_pooling\<close> fails the assertion of line 23 (the specification's
  ShapeError) exactly when the input shape, the argument \<^verbatim>\<open>input_shape\<close> or else
  \<^verbatim>\<open>tensor.shape\<close>, does not have exactly 3 entries. The assertion comes before the
  divisions and the reshapes: whatever the window and the tensor's contents, a shape of
  another length ends the call there, and no later step raises this error.
\<close>

theorem shape_assertion_exactly_when_not_three_axes:
  "(depth_increasing_pooling t pooling_window_shape input_shape_arg = Inl AssertionError)
   = (length (case input_shape_arg of None \<Rightarrow> shape t | Some s \<Rightarrow> s) \<noteq> 3)"
proof (cases "length (case input_shape_arg of None \<Rightarrow> shape t | Some s \<Rightarrow> s) = 3")
  case False
  then show ?thesis by (simp add: depth_increasing_pooling_def)
next
  case True
  have "depth_increasing_pooling t pooling_window_shape input_shape_arg \<noteq> Inl AssertionError"
  proof
    assume "depth_increasing_pooling t pooling_window_shape input_shape_arg = Inl AssertionError"
    then show False
      using True
      by (auto simp: depth_increasing_pooling_def Let_def transpose_a_lot_def
          split: sum.splits
          dest!: truediv_error reshape_error transposeAlotNp_error)
  qed
  then show ?thesis using True by simp
qed

end
